theory Spec2Isabelle
  imports Main "HOL-Library.Sublist"
begin

section \<open>Common values\<close>

text \<open>
  Template literals print a non-negative integer in decimal, without sign or padding.
\<close>

definition digit_char :: "nat \<Rightarrow> char" where
  "digit_char d = ''0123456789'' ! d"

fun string_of_nat :: "nat \<Rightarrow> string" where
  "string_of_nat n =
     (if n < 10 then [digit_char n]
      else string_of_nat (n div 10) @ [digit_char (n mod 10)])"

declare string_of_nat.simps [simp del]

datatype error = NotFound

section \<open>Alternative detail page: \<open>app/(web)/alternatives/[slug]/page.tsx\<close>\<close>

subsection \<open>Payloads\<close>

record category =
  category_id :: string
  category_name :: string
  category_slug :: string
  category_label :: "string option"

text \<open>
  A tool as \<open>findToolsWithCategories\<close> returns it. Each element of \<open>categories\<close>
  is a join row \<open>{ category }\<close>; only its category is read.
\<close>

record tool =
  tool_id :: string
  tool_slug :: string
  tool_name :: string
  tool_faviconUrl :: "string option"
  tool_categories :: "category list"

text \<open>\<open>alternative._count.tools\<close> is the field \<open>count_tools\<close>.\<close>

record alternative =
  alternative_name :: string
  alternative_slug :: string
  count_tools :: nat

subsection \<open>\<open>getAlternative\<close>\<close>

text \<open>
  \<open>findAlternative\<close> belongs to the data layer and is a parameter: a slug is mapped to
  the record found, or to \<open>None\<close> for \<open>null\<close>. \<open>notFound()\<close> throws the framework's
  not-found signal, here the error value \<open>NotFound\<close>.
\<close>

definition getAlternative :: "(string \<Rightarrow> alternative option) \<Rightarrow> string \<Rightarrow> error + alternative" where
  "getAlternative findAlternative slug =
     (case findAlternative slug of
        None \<Rightarrow> Inl NotFound
      | Some alternative \<Rightarrow> Inr alternative)"

subsection \<open>\<open>getMetadata\<close>\<close>

record metadata =
  title :: string
  description :: string

text \<open>
  \<open>year\<close> is \<open>getYear(addMonths(new Date(), 1))\<close>; the clock is outside the program, so
  the year is passed in.
\<close>

definition getMetadata :: "nat \<Rightarrow> alternative \<Rightarrow> metadata" where
  "getMetadata year alternative =
     (let count = count_tools alternative in
      \<lparr> title =
          (if count > 1 then string_of_nat count @ '' '' else '''')
          @ ''Best Open Source '' @ alternative_name alternative
          @ '' Alternatives in '' @ string_of_nat year,
        description =
          ''A curated collection of the best open source alternatives to ''
          @ alternative_name alternative
          @ ''. Each listing includes a website screenshot along with a detailed review of its features.'' \<rparr>)"

subsection \<open>Plain objects used as dictionaries\<close>

text \<open>
  The category tally is a plain object \<open>{}\<close> indexed by category name. Three facts of
  the language decide what the page computes from it:
  \<^item> \<open>Object.values\<close> lists own properties whose key is an array index (the canonical
    decimal form of an integer from \<open>0\<close> to \<open>2\<^sup>3\<^sup>2 - 2\<close>) first, in ascending numeric
    order, and all other keys after them in the order in which they were created;
  \<^item> a read \<open>acc[k]\<close> of a key that is not an own property goes to \<open>Object.prototype\<close>,
    whose properties are all truthy;
  \<^item> \<open>Array.prototype.sort\<close> is stable.
  An object is an association list kept in the order of \<open>Object.values\<close>.
\<close>

definition is_digit :: "char \<Rightarrow> bool" where
  "is_digit c = (c \<in> set ''0123456789'')"

definition nat_of_digits :: "string \<Rightarrow> nat" where
  "nat_of_digits s = foldl (\<lambda>n c. 10 * n + (of_char c - 48)) 0 s"

definition is_array_index :: "string \<Rightarrow> bool" where
  "is_array_index s =
     (s \<noteq> [] \<and> list_all is_digit s \<and> (s = ''0'' \<or> hd s \<noteq> CHR ''0'')
      \<and> nat_of_digits s < 4294967295)"

definition object_prototype_keys :: "string list" where
  "object_prototype_keys =
     [''constructor'', ''__defineGetter__'', ''__defineSetter__'', ''hasOwnProperty'',
      ''__lookupGetter__'', ''__lookupSetter__'', ''isPrototypeOf'',
      ''propertyIsEnumerable'', ''toString'', ''valueOf'', ''__proto__'',
      ''toLocaleString'']"

text \<open>\<open>!!obj[k]\<close>: the key is an own property (every stored value is an object) or inherited.\<close>

definition obj_truthy :: "(string \<times> 'v) list \<Rightarrow> string \<Rightarrow> bool" where
  "obj_truthy obj k = (map_of obj k \<noteq> None \<or> k \<in> set object_prototype_keys)"

text \<open>\<open>obj[k] = v\<close> for a key that is not yet an own property.\<close>

fun obj_define :: "string \<Rightarrow> 'v \<Rightarrow> (string \<times> 'v) list \<Rightarrow> (string \<times> 'v) list" where
  "obj_define k v [] = [(k, v)]"
| "obj_define k v ((k', v') # ps) =
     (if is_array_index k \<and> (\<not> is_array_index k' \<or> nat_of_digits k < nat_of_digits k')
      then (k, v) # (k', v') # ps
      else (k', v') # obj_define k v ps)"

text \<open>A change of the value stored under an own key; any other key leaves the object as it is.\<close>

fun obj_modify :: "string \<Rightarrow> ('v \<Rightarrow> 'v) \<Rightarrow> (string \<times> 'v) list \<Rightarrow> (string \<times> 'v) list" where
  "obj_modify k f [] = []"
| "obj_modify k f ((k', v') # ps) =
     (if k = k' then (k', f v') # ps else (k', v') # obj_modify k f ps)"

definition Object_values :: "(string \<times> 'v) list \<Rightarrow> 'v list" where
  "Object_values obj = map snd obj"

text \<open>
  \<open>xs.sort(cmp)\<close>: a stable sort; \<open>x\<close> stays in front of \<open>y\<close> unless \<open>cmp x y > 0\<close>.
\<close>

fun insert_by :: "('a \<Rightarrow> 'a \<Rightarrow> int) \<Rightarrow> 'a \<Rightarrow> 'a list \<Rightarrow> 'a list" where
  "insert_by cmp x [] = [x]"
| "insert_by cmp x (y # ys) =
     (if cmp x y \<le> 0 then x # y # ys else y # insert_by cmp x ys)"

definition sort_by :: "('a \<Rightarrow> 'a \<Rightarrow> int) \<Rightarrow> 'a list \<Rightarrow> 'a list" where
  "sort_by cmp xs = foldr (insert_by cmp) xs []"

subsection \<open>Category ranking\<close>

record ranked =
  count :: nat
  category :: category

text \<open>
  The body of the \<open>for\<close> loop. When the name is an inherited key that is not an own
  property, the guard \<open>!acc[category.name]\<close> is false and \<open>acc[category.name].count += 1\<close>
  writes to the inherited object, so \<open>acc\<close> gains no property.
\<close>

definition count_category :: "(string \<times> ranked) list \<Rightarrow> category \<Rightarrow> (string \<times> ranked) list" where
  "count_category acc c =
     (let name = category_name c;
          acc' = (if \<not> obj_truthy acc name
                  then obj_define name \<lparr> count = 0, category = c \<rparr> acc
                  else acc)
      in obj_modify name (\<lambda>r. r\<lparr> count := count r + 1 \<rparr>) acc')"

definition tally :: "tool list \<Rightarrow> (string \<times> ranked) list" where
  "tally tools = foldl (\<lambda>acc t. foldl count_category acc (tool_categories t)) [] tools"

definition categories :: "tool list \<Rightarrow> ranked list" where
  "categories tools =
     sort_by (\<lambda>a b. int (count b) - int (count a)) (Object_values (tally tools))"

subsection \<open>The order of a ranking\<close>

text \<open>
  The category names in the order in which the loops of the page meet them, and the
  position at which a name is met first.
\<close>

definition encountered :: "tool list \<Rightarrow> string list" where
  "encountered tools = concat (map (\<lambda>t. map category_name (tool_categories t)) tools)"

definition first_index :: "'a list \<Rightarrow> 'a \<Rightarrow> nat" where
  "first_index xs x = length (takeWhile (\<lambda>y. y \<noteq> x) xs)"

definition encounter_before :: "string list \<Rightarrow> string \<Rightarrow> string \<Rightarrow> bool" where
  "encounter_before seen a b = (first_index seen a < first_index seen b)"

text \<open>
  The order of \<open>Object.values\<close> on keys: array indices by their number, then the other
  keys as first met.
\<close>

definition key_before :: "string list \<Rightarrow> string \<Rightarrow> string \<Rightarrow> bool" where
  "key_before seen a b =
     (if is_array_index a
      then (if is_array_index b then nat_of_digits a < nat_of_digits b else True)
      else (if is_array_index b then False else first_index seen a < first_index seen b))"

text \<open>
  \<open>a\<close> is ranked in front of \<open>b\<close>: it has the greater count, or the same count and its
  name comes first in the order \<open>tie\<close>.
\<close>

definition ranked_before :: "(string \<Rightarrow> string \<Rightarrow> bool) \<Rightarrow> ranked \<Rightarrow> ranked \<Rightarrow> bool" where
  "ranked_before tie a b =
     (count a > count b
      \<or> (count a = count b \<and> tie (category_name (category a)) (category_name (category b))))"

text \<open>What the fold has built after the names \<open>seen\<close>.\<close>

definition tally_inv :: "string list \<Rightarrow> (string \<times> ranked) list \<Rightarrow> bool" where
  "tally_inv seen acc \<longleftrightarrow>
     sorted_wrt (key_before seen) (map fst acc)
   \<and> set (map fst acc) = set seen - set object_prototype_keys
   \<and> (\<forall>(k, r) \<in> set acc. category_name (category r) = k \<and> count r = count_list seen k)"

text \<open>Two tool lists to run the ranking on.\<close>

definition named_category :: "string \<Rightarrow> category" where
  "named_category n =
     \<lparr> category_id = n, category_name = n, category_slug = n, category_label = None \<rparr>"

definition categorised_tool :: "string \<Rightarrow> string list \<Rightarrow> tool" where
  "categorised_tool n cs =
     \<lparr> tool_id = n, tool_slug = n, tool_name = n, tool_faviconUrl = None,
       tool_categories = map named_category cs \<rparr>"

definition tools_by_topic :: "tool list" where
  "tools_by_topic =
     [categorised_tool ''plausible'' [''Analytics'', ''Privacy''],
      categorised_tool ''umami'' [''Privacy''],
      categorised_tool ''listmonk'' [''Email'']]"

definition tools_by_year :: "tool list" where
  "tools_by_year =
     [categorised_tool ''plausible'' [''2024''],
      categorised_tool ''umami'' [''2023'']]"

subsection \<open>Rendering\<close>

text \<open>
  The rendered tree, reduced to what the page decides itself: text, links, the entries of
  the tool list and of the side menu. \<open>Anchor key href text\<close> is a \<open>Link\<close> element.
\<close>

datatype inline = Text string | Anchor "string option" string string

text \<open>\<open>xs.shift()\<close> removes and returns the first element, \<open>undefined\<close> on an empty array.\<close>

fun shift :: "'a list \<Rightarrow> 'a option \<times> 'a list" where
  "shift [] = (None, [])"
| "shift (x # xs) = (Some x, xs)"

definition bestTools :: "tool list \<Rightarrow> inline list" where
  "bestTools tools =
     map (\<lambda>tool. Anchor (Some (tool_id tool)) (''/'' @ tool_slug tool) (tool_name tool))
       (take 5 tools)"

text \<open>\<open>category.label || category.name\<close>: a missing or empty label gives the name.\<close>

definition label_or_name :: "category \<Rightarrow> string" where
  "label_or_name c =
     (case category_label c of
        None \<Rightarrow> category_name c
      | Some l \<Rightarrow> if l = [] then category_name c else l)"

definition bestCategories :: "ranked list \<Rightarrow> inline list" where
  "bestCategories cs =
     map (\<lambda>r. Anchor (Some (category_id (category r)))
                 (''/categories/'' @ category_slug (category r)) (label_or_name (category r)))
       (take 3 cs)"

text \<open>
  The fragments of \<open>xs.map((x, index) => ...)\<close> with the separators \<open>sep\<close> between
  inner elements and \<open>last_sep\<close> in front of the last one.
\<close>

definition enumerate_with :: "string \<Rightarrow> string \<Rightarrow> inline list \<Rightarrow> inline list" where
  "enumerate_with sep last_sep xs =
     concat (map (\<lambda>(index, x).
         (if index > 0 \<and> index \<noteq> length xs - 1 then [Text sep] else [])
       @ (if index > 0 \<and> index = length xs - 1 then [Text last_sep] else [])
       @ [x]) (zip [0 ..< length xs] xs))"

definition undefined_or :: "inline option \<Rightarrow> inline list" where
  "undefined_or x = (case x of None \<Rightarrow> [] | Some i \<Rightarrow> [i])"

definition tools_paragraph :: "string \<Rightarrow> inline list \<Rightarrow> inline list" where
  "tools_paragraph name best =
     (let (first, rest) = shift best in
        [Text ''The best open source alternative to '', Text name, Text '' is '']
      @ undefined_or first
      @ [Text ''. If that doesn't suit you, we've compiled a'', Text '' '',
         Anchor None ''/about#how-are-rankings-calculated'' ''ranked list'',
         Text '' of other open source '', Text name,
         Text '' alternatives to help you find a suitable replacement.'']
      @ (if rest \<noteq> [] then
           [Text '' '', Text ''Other interesting open source'',
            Text (if length rest = 1
                  then '' alternative to '' @ name @ '' is ''
                  else '' alternatives to '' @ name @ '' are: '')]
           @ enumerate_with '', '' '' and '' rest
           @ [Text ''.'']
         else []))"

text \<open>The links to tools in a paragraph: the \<open>Link\<close> elements that carry a key.\<close>

definition is_tool_link :: "inline \<Rightarrow> bool" where
  "is_tool_link i = (case i of Anchor (Some k) h t \<Rightarrow> True | _ \<Rightarrow> False)"

definition categories_paragraph :: "string \<Rightarrow> inline list \<Rightarrow> inline list option" where
  "categories_paragraph name best =
     (if best \<noteq> [] then
        Some (let (first, rest) = shift best in
            [Text name, Text '' alternatives are mainly '']
          @ undefined_or first
          @ (if rest \<noteq> [] then [Text '' but may also be ''] else [])
          @ enumerate_with '', '' '' or '' rest
          @ [Text ''. Browse these if you want a narrower list of alternatives or looking for a specific functionality of '',
             Text name, Text ''.''])
      else None)"

record menu_item =
  item_id :: string
  item_title :: string
  item_favicon :: "string option"
  item_suffix :: "string option"

definition medalColors :: "string list" where
  "medalColors = [''text-amber-500'', ''text-slate-400'', ''text-orange-700'']"

definition menu_items :: "tool list \<Rightarrow> menu_item list" where
  "menu_items tools =
     map (\<lambda>(index, t).
        \<lparr> item_id = tool_slug t, item_title = tool_name t,
          item_favicon = tool_faviconUrl t,
          item_suffix = (if index < 3 then Some (medalColors ! index) else None) \<rparr>)
       (zip [0 ..< length tools] tools)"

record tool_section =
  prose_tools :: "inline list"
  prose_categories :: "inline list option"
  share_title :: string
  tool_entries :: "tool list"
  sidebar_menu :: "menu_item list"

record page =
  intro_title :: string
  intro_description :: string
  page_section :: "tool_section option"

definition render :: "nat \<Rightarrow> alternative \<Rightarrow> tool list \<Rightarrow> page" where
  "render year alternative tools =
     (let name = alternative_name alternative in
      \<lparr> intro_title = ''Open Source '' @ name @ '' Alternatives'',
        intro_description =
          (if count_tools alternative \<noteq> 0
           then ''A curated collection of the '' @ string_of_nat (count_tools alternative)
                @ '' best open source alternatives to '' @ name @ ''.''
           else ''No open source '' @ name @ '' alternatives found yet.''),
        page_section =
          (if length tools \<noteq> 0
           then Some \<lparr> prose_tools = tools_paragraph name (bestTools tools),
                       prose_categories =
                         categories_paragraph name (bestCategories (categories tools)),
                       share_title = title (getMetadata year alternative),
                       tool_entries = tools,
                       sidebar_menu = menu_items tools \<rparr>
           else None) \<rparr>)"

text \<open>
  The page awaits \<open>getAlternative\<close> and \<open>findToolsWithCategories\<close> together; the latter
  is the data layer's and a parameter. A rejected \<open>getAlternative\<close> rejects the whole
  page; \<open>generateMetadata\<close> awaits the same \<open>getAlternative\<close>.
\<close>

definition AlternativePage ::
  "(string \<Rightarrow> alternative option) \<Rightarrow> (string \<Rightarrow> tool list) \<Rightarrow> nat \<Rightarrow> string \<Rightarrow> error + page" where
  "AlternativePage findAlternative findToolsWithCategories year slug =
     (case getAlternative findAlternative slug of
        Inl e \<Rightarrow> Inl e
      | Inr alternative \<Rightarrow> Inr (render year alternative (findToolsWithCategories slug)))"

record page_metadata =
  meta :: metadata
  canonical :: string
  openGraph_url :: string

definition generateMetadata ::
  "(string \<Rightarrow> alternative option) \<Rightarrow> nat \<Rightarrow> string \<Rightarrow> error + page_metadata" where
  "generateMetadata findAlternative year slug =
     (case getAlternative findAlternative slug of
        Inl e \<Rightarrow> Inl e
      | Inr alternative \<Rightarrow>
          (let url = ''/alternatives/'' @ alternative_slug alternative in
           Inr \<lparr> meta = getMetadata year alternative, canonical = url, openGraph_url = url \<rparr>))"

section \<open>Breadcrumbs: \<open>components/web/ui/breadcrumbs.tsx\<close>\<close>

text \<open>
  A \<open>ReactNode\<close> is a string or something else; \<open>typeof name === "string"\<close> tells them
  apart. \<open>config.site\<close> is not part of the component and is a parameter.
\<close>

datatype react_node =
  RString string | RNumber int | RBoolean bool | RNull | RElement string

record breadcrumb =
  crumb_href :: string
  crumb_name :: react_node

record site =
  site_url :: string
  site_name :: string

definition breadcrumbItems :: "breadcrumb list \<Rightarrow> breadcrumb list" where
  "breadcrumbItems items = \<lparr> crumb_href = ''/'', crumb_name = RElement ''Home'' \<rparr> # items"

record list_item =
  ld_position :: nat
  ld_id :: string
  ld_name :: string

definition itemListElement :: "site \<Rightarrow> breadcrumb list \<Rightarrow> list_item list" where
  "itemListElement config items =
     map (\<lambda>(index, b).
        \<lparr> ld_position = index + 1,
          ld_id = site_url config @ crumb_href b,
          ld_name = (case crumb_name b of RString s \<Rightarrow> s | _ \<Rightarrow> site_name config) \<rparr>)
       (zip [0 ..< length (breadcrumbItems items)] (breadcrumbItems items))"

text \<open>One \<open>div\<close> of the \<open>nav\<close>: a separator in front of every link but the first.\<close>

record nav_entry =
  nav_separator :: bool
  nav_href :: string
  nav_name :: react_node

definition nav :: "breadcrumb list \<Rightarrow> nav_entry list" where
  "nav items =
     map (\<lambda>(index, b).
        \<lparr> nav_separator = (index > 0), nav_href = crumb_href b, nav_name = crumb_name b \<rparr>)
       (zip [0 ..< length (breadcrumbItems items)] (breadcrumbItems items))"

section \<open>Tool badges\<close>

text \<open>
  Dates are of any type \<open>'d\<close>; \<open>differenceInDays\<close> (date-fns) and the clock \<open>today\<close> are
  parameters. A nullable date is an option. The children of the \<open>Stack\<close> are the
  tooltips rendered, followed by the children passed in.
\<close>

record 'd tool_many =
  firstCommitDate :: "'d option"
  publishedAt :: "'d option"

datatype 'c stack_child = Tooltip string string | Child 'c

definition isNew :: "('d \<Rightarrow> 'd \<Rightarrow> int) \<Rightarrow> 'd \<Rightarrow> 'd tool_many \<Rightarrow> bool" where
  "isNew differenceInDays today tool =
     (case firstCommitDate tool of
        None \<Rightarrow> False
      | Some d \<Rightarrow> differenceInDays today d \<le> 365)"

definition isFresh :: "('d \<Rightarrow> 'd \<Rightarrow> int) \<Rightarrow> 'd \<Rightarrow> 'd tool_many \<Rightarrow> bool" where
  "isFresh differenceInDays today tool =
     (case publishedAt tool of
        None \<Rightarrow> False
      | Some d \<Rightarrow> differenceInDays today d \<le> 30)"

definition new_badge :: "'c stack_child" where
  "new_badge = Tooltip ''Repo is less than 1 year old'' ''SparklesIcon''"

definition fresh_badge :: "'c stack_child" where
  "fresh_badge = Tooltip ''Published in the last 30 days'' ''BellPlusIcon''"

definition ToolBadges ::
  "('d \<Rightarrow> 'd \<Rightarrow> int) \<Rightarrow> 'd \<Rightarrow> 'd tool_many \<Rightarrow> 'c list \<Rightarrow> 'c stack_child list" where
  "ToolBadges differenceInDays today tool children =
       (if isNew differenceInDays today tool then [new_badge] else [])
     @ (if isFresh differenceInDays today tool then [fresh_badge] else [])
     @ map Child children"

text \<open>
  \<open>differenceInDays\<close> on timestamps in milliseconds, where every day has 24 hours: the
  number of full days between the two, rounded towards zero.
\<close>

definition full_days :: "int \<Rightarrow> int \<Rightarrow> int" where
  "full_days later earlier = sgn (later - earlier) * (\<bar>later - earlier\<bar> div 86400000)"

section \<open>Search box: \<open>app/routes/_index/SearchBox.tsx\<close>\<close>

text \<open>
  The component is a state machine driven by three events: an \<open>onChange\<close> of the input
  with the new value, the form's \<open>onReset\<close>, and the passing of time. Time is counted
  in milliseconds since the component was mounted. What can be observed is the
  sequence, in order, of effective changes of \<open>searchQuery\<close> and of calls of \<open>refine\<close>.
\<close>

datatype obs = Changed nat string | Refined nat string

datatype event = Input string | Reset | Wait nat

text \<open>
  \<open>searchQuery\<close> is the component's \<open>useState\<close>; \<open>debouncedSearchTerm\<close> is what
  \<open>useDebounce\<close> returns; \<open>timer\<close> is the pending timeout of \<open>useDebounce\<close>, with its
  deadline and the value it will deliver.
\<close>

record search_box =
  now :: nat
  searchQuery :: string
  debouncedSearchTerm :: string
  timer :: "(nat \<times> string) option"
  trace :: "obs list"

text \<open>
  The effect \<open>useEffect(() => { refine(debouncedSearchTerm) }, [debouncedSearchTerm, refine])\<close>
  at time \<open>t\<close>. It runs after the first render and after every render in which
  \<open>debouncedSearchTerm\<close> differs from the previous render; \<open>refine\<close> is the same function
  in every render.
\<close>

definition refine_effect :: "nat \<Rightarrow> search_box \<Rightarrow> search_box" where
  "refine_effect t s = s\<lparr> trace := trace s @ [Refined t (debouncedSearchTerm s)] \<rparr>"

text \<open>
  Modelled from the spec: \<open>useDebounce\<close> (package \<open>@uidotdev/usehooks\<close>) is not among
  the sources. The spec: "after a fixed quiet period (250ms) following the last
  keystroke, submits the current text", "rapid retyping must not submit intermediate
  values (debounce coalesces them)". The hook keeps the debounced value in a state of
  its own, initially the value passed; whenever the value passed changes it drops the
  pending timeout and starts one of \<open>delay\<close> milliseconds that stores that value.
\<close>

definition useDebounce_restart :: "nat \<Rightarrow> string \<Rightarrow> search_box \<Rightarrow> search_box" where
  "useDebounce_restart delay v s = s\<lparr> timer := Some (now s + delay, v) \<rparr>"

text \<open>
  Modelled from the spec: the timeout of \<open>useDebounce\<close> at its deadline \<open>t\<close>. It stores
  the value; the component renders again only if the stored value is a new one, and
  then the effect of \<open>SearchBox\<close> runs.
\<close>

definition useDebounce_fire :: "nat \<Rightarrow> string \<Rightarrow> search_box \<Rightarrow> search_box" where
  "useDebounce_fire t v s =
     (if v = debouncedSearchTerm s then s\<lparr> timer := None \<rparr>
      else refine_effect t (s\<lparr> timer := None, debouncedSearchTerm := v \<rparr>))"

text \<open>
  The first render: \<open>useState(query)\<close>, \<open>useDebounce(searchQuery, 250)\<close>, then both effects.
\<close>

definition mount :: "string \<Rightarrow> search_box" where
  "mount query =
     refine_effect 0
       (useDebounce_restart 250 query
          \<lparr> now = 0, searchQuery = query, debouncedSearchTerm = query,
            timer = None, trace = [] \<rparr>)"

text \<open>
  \<open>setSearchQuery(v)\<close>: a value equal to the state changes nothing; a new value is
  stored and rendered, and \<open>useDebounce(searchQuery, 250)\<close> sees a new value.
\<close>

definition setSearchQuery :: "string \<Rightarrow> search_box \<Rightarrow> search_box" where
  "setSearchQuery v s =
     (if v = searchQuery s then s
      else useDebounce_restart 250 v
             (s\<lparr> searchQuery := v, trace := trace s @ [Changed (now s) v] \<rparr>))"

text \<open>Time passes by \<open>d\<close> milliseconds; a timeout whose deadline is reached fires at the deadline.\<close>

definition wait :: "nat \<Rightarrow> search_box \<Rightarrow> search_box" where
  "wait d s =
     (case timer s of
        None \<Rightarrow> s\<lparr> now := now s + d \<rparr>
      | Some (deadline, v) \<Rightarrow>
          if deadline \<le> now s + d
          then (useDebounce_fire deadline v s)\<lparr> now := now s + d \<rparr>
          else s\<lparr> now := now s + d \<rparr>)"

fun step :: "search_box \<Rightarrow> event \<Rightarrow> search_box" where
  "step s (Input v) = setSearchQuery v s"
| "step s Reset = setSearchQuery '''' s"
| "step s (Wait d) = wait d s"

definition run :: "search_box \<Rightarrow> event list \<Rightarrow> search_box" where
  "run s evs = foldl step s evs"

text \<open>The calls of \<open>refine\<close> in a trace, and the text of the input after a trace.\<close>

fun submissions :: "obs list \<Rightarrow> (nat \<times> string) list" where
  "submissions [] = []"
| "submissions (Refined t v # os) = (t, v) # submissions os"
| "submissions (Changed t v # os) = submissions os"

fun text_after :: "string \<Rightarrow> obs list \<Rightarrow> string" where
  "text_after q [] = q"
| "text_after q (Changed t v # os) = text_after v os"
| "text_after q (Refined t v # os) = text_after q os"

text \<open>
  Typing: the first value at once, every further value after its gap.
\<close>

definition typing :: "string \<Rightarrow> (nat \<times> string) list \<Rightarrow> event list" where
  "typing v rest = Input v # concat (map (\<lambda>(gap, w). [Wait gap, Input w]) rest)"

text \<open>
  Rapid typing after the value \<open>v\<close>: every further value differs from the one before
  and comes less than 250 ms after it. \<open>retyping\<close> is the part of \<open>typing\<close> after the
  first value.
\<close>

fun rapid :: "string \<Rightarrow> (nat \<times> string) list \<Rightarrow> bool" where
  "rapid v [] = True"
| "rapid v ((gap, w) # rest) = (gap < 250 \<and> w \<noteq> v \<and> rapid w rest)"

definition retyping :: "(nat \<times> string) list \<Rightarrow> event list" where
  "retyping rest = concat (map (\<lambda>(gap, w). [Wait gap, Input w]) rest)"

text \<open>
  A trace is quiet when every call of \<open>refine\<close> in it comes at least 250 ms after each
  change of the text before it, and passes the text as it is then.
\<close>

definition quiet :: "string \<Rightarrow> obs list \<Rightarrow> bool" where
  "quiet q tr \<longleftrightarrow>
     (\<forall>pre t v post. tr = pre @ Refined t v # post \<longrightarrow>
        (\<forall>t' v'. Changed t' v' \<in> set pre \<longrightarrow> t' + 250 \<le> t) \<and> v = text_after q pre)"

text \<open>What holds of every state the component reaches after being mounted with \<open>q\<close>.\<close>

definition box_inv :: "string \<Rightarrow> search_box \<Rightarrow> bool" where
  "box_inv q s \<longleftrightarrow>
     quiet q (trace s)
   \<and> searchQuery s = text_after q (trace s)
   \<and> (\<forall>t' v'. Changed t' v' \<in> set (trace s) \<longrightarrow> t' \<le> now s)
   \<and> (\<forall>dl v. timer s = Some (dl, v) \<longrightarrow>
         v = searchQuery s \<and> dl \<le> now s + 250
       \<and> (\<forall>t' v'. Changed t' v' \<in> set (trace s) \<longrightarrow> t' + 250 \<le> dl))
   \<and> (searchQuery s \<noteq> debouncedSearchTerm s \<longrightarrow> timer s \<noteq> None)
   \<and> submissions (trace s) \<noteq> []
   \<and> debouncedSearchTerm s = snd (last (submissions (trace s)))"

section \<open>Properties of the alternative detail page\<close>

subsection \<open>Auxiliary facts\<close>

lemma string_of_nat_0: "string_of_nat 0 = ''0''"
  by (simp add: string_of_nat.simps digit_char_def)

lemma string_of_nat_1: "string_of_nat (Suc 0) = ''1''"
  by (simp add: string_of_nat.simps digit_char_def)

lemma filter_separated:
  assumes "\<And>i. filter P (pre i) = []"
  shows "filter P (concat (map (\<lambda>(i, x). pre i @ [x]) zs)) = filter P (map snd zs)"
  using assms by (induction zs) (auto simp: case_prod_unfold)

lemma filter_enumerate_with:
  assumes "\<And>s. \<not> P (Text s)"
  shows "filter P (enumerate_with sep last_sep xs) = filter P xs"
proof -
  define pre where "pre = (\<lambda>index.
         (if index > 0 \<and> index \<noteq> length xs - 1 then [Text sep] else [])
       @ (if index > 0 \<and> index = length xs - 1 then [Text last_sep] else []))"
  have "enumerate_with sep last_sep xs
      = concat (map (\<lambda>(i, x). pre i @ [x]) (zip [0 ..< length xs] xs))"
    by (simp add: enumerate_with_def pre_def)
  moreover have "\<And>i. filter P (pre i) = []"
    using assms by (simp add: pre_def)
  ultimately show ?thesis by (simp add: filter_separated)
qed

lemma tool_links_bestTools: "filter is_tool_link (bestTools tools) = bestTools tools"
  by (simp add: bestTools_def is_tool_link_def filter_map comp_def)

subsection \<open>The top-5 slice\<close>

text \<open>
  C3: whatever the length of the tool list, \<open>bestTools\<close> has at most 5 entries, and the
  links to tools in the rendered paragraph are exactly these entries (the first one
  taken out by \<open>shift\<close>, the others enumerated after it).
\<close>

theorem bestTools_at_most_5:
  "length (bestTools tools) \<le> 5
 \<and> filter is_tool_link (tools_paragraph name (bestTools tools)) = bestTools tools"
proof -
  have "filter is_tool_link (tools_paragraph name best) = filter is_tool_link best" for best
    by (cases best)
       (simp_all add: tools_paragraph_def undefined_or_def filter_enumerate_with is_tool_link_def)
  then show ?thesis by (simp add: tool_links_bestTools) (simp add: bestTools_def)
qed

subsection \<open>No tools\<close>

text \<open>
  C4: for an alternative with zero associated tools (its \<open>_count.tools\<close> is 0 and the
  query for its tools returns the empty list) the page shows the text
  "No open source ... alternatives found yet." and has no section with the tool list.
  The text depends on the count, the section on the list.
\<close>

theorem no_tools_none_found:
  assumes "findAlternative slug = Some a" and "count_tools a = 0"
    and "findToolsWithCategories slug = []"
  shows "\<exists>p. AlternativePage findAlternative findToolsWithCategories year slug = Inr p
       \<and> intro_description p = ''No open source '' @ alternative_name a @ '' alternatives found yet.''
       \<and> page_section p = None"
  using assms by (simp add: AlternativePage_def getAlternative_def render_def Let_def)

theorem no_tools_none_found_witness:
  "\<exists>p. AlternativePage
         (\<lambda>slug. Some \<lparr> alternative_name = ''Notion'', alternative_slug = slug, count_tools = 0 \<rparr>)
         (\<lambda>slug. []) 2025 ''notion'' = Inr p
       \<and> intro_description p = ''No open source Notion alternatives found yet.''
       \<and> page_section p = None"
  using no_tools_none_found [of "\<lambda>slug. Some \<lparr> alternative_name = ''Notion'', alternative_slug = slug, count_tools = 0 \<rparr>"
      "''notion''" "\<lparr> alternative_name = ''Notion'', alternative_slug = ''notion'', count_tools = 0 \<rparr>"
      "\<lambda>slug. []" 2025]
  by simp

subsection \<open>Missing records\<close>

text \<open>
  C6: when the data layer has no alternative for the slug, \<open>getAlternative\<close> ends in the
  not-found signal, and so do the page and its metadata; nothing is rendered.
\<close>

theorem missing_alternative_not_found:
  assumes "findAlternative slug = None"
  shows "getAlternative findAlternative slug = Inl NotFound
       \<and> AlternativePage findAlternative findToolsWithCategories year slug = Inl NotFound
       \<and> generateMetadata findAlternative year slug = Inl NotFound"
  using assms by (simp add: AlternativePage_def getAlternative_def generateMetadata_def)

theorem missing_alternative_not_found_witness:
  "AlternativePage (\<lambda>slug. None) (\<lambda>slug. []) 2025 ''notion'' = Inl NotFound"
  using missing_alternative_not_found [of "\<lambda>slug. None" "''notion''" "\<lambda>slug. []" 2025]
  by simp

subsection \<open>The title\<close>

text \<open>
  C8: the title starts with the tool count and a space exactly when the count is
  greater than 1; for the counts 0 and 1 it starts with "Best Open Source" and carries
  no count.
\<close>

theorem title_count_prefix:
  fixes a year
  defines "base \<equiv> ''Best Open Source '' @ alternative_name a @ '' Alternatives in '' @ string_of_nat year"
  shows "(count_tools a > 1 \<longrightarrow> title (getMetadata year a) = string_of_nat (count_tools a) @ '' '' @ base)
       \<and> (count_tools a \<le> 1 \<longrightarrow> title (getMetadata year a) = base)
       \<and> (prefix (string_of_nat (count_tools a) @ '' '') (title (getMetadata year a)) \<longleftrightarrow> count_tools a > 1)"
proof -
  have "count_tools a = 0 \<or> count_tools a = 1 \<or> count_tools a > 1" by arith
  then show ?thesis
    by (auto simp: getMetadata_def base_def Let_def string_of_nat_0 string_of_nat_1)
qed

theorem title_count_prefix_witness:
  "title (getMetadata 2025 \<lparr> alternative_name = ''Notion'', alternative_slug = ''notion'', count_tools = 12 \<rparr>)
     = ''12 Best Open Source Notion Alternatives in 2025''
   \<and> title (getMetadata 2025 \<lparr> alternative_name = ''Notion'', alternative_slug = ''notion'', count_tools = 1 \<rparr>)
     = ''Best Open Source Notion Alternatives in 2025''"
  using title_count_prefix [of "\<lparr> alternative_name = ''Notion'', alternative_slug = ''notion'', count_tools = 12 \<rparr>" 2025]
    title_count_prefix [of "\<lparr> alternative_name = ''Notion'', alternative_slug = ''notion'', count_tools = 1 \<rparr>" 2025]
  by (simp add: string_of_nat.simps digit_char_def)

section \<open>Properties of the breadcrumbs\<close>

lemma map_indexed_fst:
  "map (\<lambda>(index, b). f index) (zip [0 ..< length xs] xs) = map f [0 ..< length xs]"
proof -
  have "map (\<lambda>(index, b). f index) (zip [0 ..< length xs] xs)
      = map (f \<circ> fst) (zip [0 ..< length xs] xs)"
    by (simp add: case_prod_unfold comp_def)
  also have "\<dots> = map f (map fst (zip [0 ..< length xs] xs))"
    by (simp only: map_map)
  also have "map fst (zip [0 ..< length xs] xs) = [0 ..< length xs]"
    by simp
  finally show ?thesis .
qed

lemma map_indexed_snd:
  "map (\<lambda>(index, b). g b) (zip [0 ..< length xs] xs) = map g xs"
proof -
  have "map (\<lambda>(index, b). g b) (zip [0 ..< length xs] xs)
      = map (g \<circ> snd) (zip [0 ..< length xs] xs)"
    by (simp add: case_prod_unfold comp_def)
  also have "\<dots> = map g (map snd (zip [0 ..< length xs] xs))"
    by (simp only: map_map)
  also have "map snd (zip [0 ..< length xs] xs) = xs"
    by simp
  finally show ?thesis .
qed

lemma zip_upt_Cons:
  "zip [0 ..< length (x # xs)] (x # xs)
     = (0, x) # map (\<lambda>(index, b). (Suc index, b)) (zip [0 ..< length xs] xs)"
proof -
  have "[0 ..< length (x # xs)] = 0 # map Suc [0 ..< length xs]"
    by (simp add: upt_conv_Cons map_Suc_upt del: upt_Suc)
  then show ?thesis by (simp add: zip_map1 del: upt_Suc)
qed

lemma ld_positions: "map ld_position (itemListElement config items) = [1 ..< length items + 2]"
proof -
  have "map ld_position (itemListElement config items)
      = map (\<lambda>(index, b). Suc index)
          (zip [0 ..< length (breadcrumbItems items)] (breadcrumbItems items))"
    by (simp add: itemListElement_def case_prod_unfold comp_def)
  also have "\<dots> = map Suc [0 ..< length (breadcrumbItems items)]"
    by (rule map_indexed_fst)
  also have "\<dots> = [1 ..< length items + 2]"
    by (simp add: breadcrumbItems_def map_Suc_upt del: upt_Suc)
  finally show ?thesis .
qed

lemma nav_hrefs: "map nav_href (nav items) = map crumb_href (breadcrumbItems items)"
proof -
  have "map nav_href (nav items)
      = map (\<lambda>(index, b). crumb_href b)
          (zip [0 ..< length (breadcrumbItems items)] (breadcrumbItems items))"
    by (simp add: nav_def case_prod_unfold comp_def)
  then show ?thesis by (simp only: map_indexed_snd)
qed

lemma nav_names: "map nav_name (nav items) = map crumb_name (breadcrumbItems items)"
proof -
  have "map nav_name (nav items)
      = map (\<lambda>(index, b). crumb_name b)
          (zip [0 ..< length (breadcrumbItems items)] (breadcrumbItems items))"
    by (simp add: nav_def case_prod_unfold comp_def)
  then show ?thesis by (simp only: map_indexed_snd)
qed

lemma ld_ids:
  "map ld_id (itemListElement config items)
     = map (\<lambda>b. site_url config @ crumb_href b) (breadcrumbItems items)"
proof -
  have "map ld_id (itemListElement config items)
      = map (\<lambda>(index, b). site_url config @ crumb_href b)
          (zip [0 ..< length (breadcrumbItems items)] (breadcrumbItems items))"
    by (simp add: itemListElement_def case_prod_unfold comp_def)
  then show ?thesis by (simp only: map_indexed_snd)
qed

lemma ld_names:
  "map ld_name (itemListElement config items)
     = map (\<lambda>b. case crumb_name b of RString s \<Rightarrow> s | _ \<Rightarrow> site_name config)
         (breadcrumbItems items)"
proof -
  have "map ld_name (itemListElement config items)
      = map (\<lambda>(index, b). case crumb_name b of RString s \<Rightarrow> s | _ \<Rightarrow> site_name config)
          (zip [0 ..< length (breadcrumbItems items)] (breadcrumbItems items))"
    by (simp add: itemListElement_def case_prod_unfold comp_def)
  then show ?thesis by (simp only: map_indexed_snd)
qed

lemma nav_Cons:
  "nav items =
     \<lparr> nav_separator = False, nav_href = ''/'', nav_name = RElement ''Home'' \<rparr>
     # map (\<lambda>b. \<lparr> nav_separator = True, nav_href = crumb_href b, nav_name = crumb_name b \<rparr>) items"
proof -
  have "map (\<lambda>(index, b). \<lparr> nav_separator = True, nav_href = crumb_href b, nav_name = crumb_name b \<rparr>)
          (zip [0 ..< length items] items)
      = map (\<lambda>b. \<lparr> nav_separator = True, nav_href = crumb_href b, nav_name = crumb_name b \<rparr>) items"
    by (rule map_indexed_snd)
  then show ?thesis
    unfolding nav_def breadcrumbItems_def zip_upt_Cons
    by (simp add: case_prod_unfold comp_def del: upt_Suc)
qed

lemma itemListElement_Cons:
  "\<exists>rest. itemListElement config items =
     \<lparr> ld_position = 1, ld_id = site_url config @ ''/'', ld_name = site_name config \<rparr> # rest"
  unfolding itemListElement_def breadcrumbItems_def zip_upt_Cons by simp

text \<open>
  C10: for every list of items, the rendered links start with the Home link to \<open>/\<close>
  (without separator) followed by the items in order, each after a separator; the
  JSON-LD list starts with the entry for \<open>/\<close>; its positions are \<open>1, \<dots>, n + 1\<close>; its
  entries follow the rendered links one by one (\<open>@id\<close> is the site URL followed by the
  link's target); and an entry's name is the link's name if that is a string and the
  site name otherwise, as for the Home entry.
\<close>

theorem breadcrumbs_home_positions_names:
  "nav items =
     \<lparr> nav_separator = False, nav_href = ''/'', nav_name = RElement ''Home'' \<rparr>
     # map (\<lambda>b. \<lparr> nav_separator = True, nav_href = crumb_href b, nav_name = crumb_name b \<rparr>) items
 \<and> (\<exists>rest. itemListElement config items =
     \<lparr> ld_position = 1, ld_id = site_url config @ ''/'', ld_name = site_name config \<rparr> # rest)
 \<and> map ld_position (itemListElement config items) = [1 ..< length items + 2]
 \<and> map ld_id (itemListElement config items) = map (\<lambda>e. site_url config @ nav_href e) (nav items)
 \<and> map ld_name (itemListElement config items)
     = map (\<lambda>e. case nav_name e of RString s \<Rightarrow> s | _ \<Rightarrow> site_name config) (nav items)"
proof -
  have ids: "map ld_id (itemListElement config items) = map (\<lambda>e. site_url config @ nav_href e) (nav items)"
  proof -
    have "map (\<lambda>e. site_url config @ nav_href e) (nav items)
        = map (\<lambda>h. site_url config @ h) (map nav_href (nav items))"
      by (simp add: comp_def)
    then show ?thesis by (simp add: ld_ids nav_hrefs comp_def)
  qed
  have names: "map ld_name (itemListElement config items)
     = map (\<lambda>e. case nav_name e of RString s \<Rightarrow> s | _ \<Rightarrow> site_name config) (nav items)"
  proof -
    have "map (\<lambda>e. case nav_name e of RString s \<Rightarrow> s | _ \<Rightarrow> site_name config) (nav items)
        = map (\<lambda>n. case n of RString s \<Rightarrow> s | _ \<Rightarrow> site_name config) (map nav_name (nav items))"
      by (simp add: comp_def)
    then show ?thesis by (simp add: ld_names nav_names comp_def)
  qed
  from nav_Cons itemListElement_Cons ld_positions ids names show ?thesis by blast
qed

theorem breadcrumbs_home_positions_names_witness:
  "itemListElement \<lparr> site_url = ''https://openalternative.co'', site_name = ''OpenAlternative'' \<rparr>
     [\<lparr> crumb_href = ''/alternatives'', crumb_name = RString ''Alternatives'' \<rparr>,
      \<lparr> crumb_href = ''/alternatives/notion'', crumb_name = RElement ''span'' \<rparr>]
   = [\<lparr> ld_position = 1, ld_id = ''https://openalternative.co/'', ld_name = ''OpenAlternative'' \<rparr>,
      \<lparr> ld_position = 2, ld_id = ''https://openalternative.co/alternatives'', ld_name = ''Alternatives'' \<rparr>,
      \<lparr> ld_position = 3, ld_id = ''https://openalternative.co/alternatives/notion'', ld_name = ''OpenAlternative'' \<rparr>]"
  using breadcrumbs_home_positions_names [of "[\<lparr> crumb_href = ''/alternatives'', crumb_name = RString ''Alternatives'' \<rparr>,
      \<lparr> crumb_href = ''/alternatives/notion'', crumb_name = RElement ''span'' \<rparr>]"
      "\<lparr> site_url = ''https://openalternative.co'', site_name = ''OpenAlternative'' \<rparr>"]
  by (simp add: itemListElement_def breadcrumbItems_def upt_conv_Cons)

section \<open>Properties of the tool badges\<close>

lemma int_div_le_iff:
  fixes x k q :: int
  assumes q: "0 < q"
  shows "x div q \<le> k \<longleftrightarrow> x < (k + 1) * q"
proof
  assume "x div q \<le> k"
  then have "x div q + 1 \<le> k + 1" by simp
  then have le: "(x div q + 1) * q \<le> (k + 1) * q"
    using q by (intro mult_right_mono) simp_all
  have "x mod q < q" using q by simp
  moreover have "x = (x div q) * q + x mod q" by simp
  ultimately have "x < (x div q) * q + q" by linarith
  then have "x < (x div q + 1) * q" by (simp add: distrib_right)
  with le show "x < (k + 1) * q" by linarith
next
  assume lt: "x < (k + 1) * q"
  show "x div q \<le> k"
  proof (rule ccontr)
    assume "\<not> x div q \<le> k"
    then have "k + 1 \<le> x div q" by simp
    then have "(k + 1) * q \<le> (x div q) * q"
      using q by (intro mult_right_mono) simp_all
    moreover have "0 \<le> x mod q" using q by simp
    moreover have "x = (x div q) * q + x mod q" by simp
    ultimately have "(k + 1) * q \<le> x" by linarith
    with lt show False by simp
  qed
qed

text \<open>
  With 24-hour days, "at most \<open>k\<close> full days" means: less than \<open>k + 1\<close> days have passed
  (a date after \<open>later\<close> included).
\<close>

lemma full_days_le:
  assumes k: "0 \<le> k"
  shows "full_days later earlier \<le> k \<longleftrightarrow> later - earlier < (k + 1) * 86400000"
proof -
  define x where "x = later - earlier"
  consider "x < 0" | "x = 0" | "0 < x" by linarith
  then show ?thesis
  proof cases
    case 1
    then have "0 \<le> \<bar>x\<bar> div 86400000" by (simp add: pos_imp_zdiv_nonneg_iff)
    with 1 have "full_days later earlier \<le> 0" by (simp add: full_days_def x_def)
    moreover have "0 \<le> (k + 1) * 86400000" using k by simp
    ultimately show ?thesis using 1 k by (simp add: x_def)
  next
    case 2
    then show ?thesis using k by (simp add: full_days_def x_def)
  next
    case 3
    then have "full_days later earlier = x div 86400000" by (simp add: full_days_def x_def)
    then show ?thesis using int_div_le_iff [of 86400000 x k] by (simp add: x_def)
  qed
qed

text \<open>
  C9: the "new" badge is among the rendered children exactly when the tool has a first
  commit date and \<open>differenceInDays(today, firstCommitDate)\<close> is at most 365; the
  "fresh" badge exactly when it has a publication date and
  \<open>differenceInDays(today, publishedAt)\<close> is at most 30.
\<close>

theorem badges_new_and_fresh:
  "(new_badge \<in> set (ToolBadges differenceInDays today tool children)
      \<longleftrightarrow> (\<exists>d. firstCommitDate tool = Some d \<and> differenceInDays today d \<le> 365))
 \<and> (fresh_badge \<in> set (ToolBadges differenceInDays today tool children)
      \<longleftrightarrow> (\<exists>d. publishedAt tool = Some d \<and> differenceInDays today d \<le> 30))"
  by (auto simp: ToolBadges_def isNew_def isFresh_def new_badge_def fresh_badge_def
           split: option.splits)

theorem badges_new_and_fresh_witness:
  "new_badge \<in> set (ToolBadges full_days 864000000
       \<lparr> firstCommitDate = Some 0, publishedAt = None \<rparr> ([] :: unit list))
 \<and> fresh_badge \<notin> set (ToolBadges full_days 864000000
       \<lparr> firstCommitDate = Some 0, publishedAt = None \<rparr> ([] :: unit list))"
  using badges_new_and_fresh [of full_days 864000000
      "\<lparr> firstCommitDate = Some 0, publishedAt = None \<rparr>" "[] :: unit list"]
  by (simp add: full_days_def)

section \<open>Properties of the category ranking\<close>

subsection \<open>Array indices have one spelling\<close>

lemma nat_of_digits_snoc:
  "nat_of_digits (s @ [c]) = 10 * nat_of_digits s + (of_char c - 48)"
  by (simp add: nat_of_digits_def)

lemma digit_value:
  assumes "is_digit c"
  shows "(of_char c :: nat) - 48 < 10" and "digit_char (of_char c - 48) = c"
  using assms by (auto simp: is_digit_def digit_char_def)

lemma string_of_nat_digits:
  assumes "s \<noteq> []" and "list_all is_digit s" and "s = ''0'' \<or> hd s \<noteq> CHR ''0''"
  shows "string_of_nat (nat_of_digits s) = s"
  using assms
proof (induction s rule: rev_induct)
  case Nil
  then show ?case by simp
next
  case (snoc c xs)
  from snoc.prems have c: "is_digit c" by simp
  define d where "d = (of_char c :: nat) - 48"
  from c have d: "d < 10" "digit_char d = c" by (simp_all add: d_def digit_value)
  show ?case
  proof (cases "xs = []")
    case True
    with d show ?thesis
      by (simp add: nat_of_digits_def string_of_nat.simps flip: d_def)
  next
    case False
    with snoc.prems have hd: "hd xs \<noteq> CHR ''0''" and digits: "list_all is_digit xs"
      by (cases xs; auto)+
    with False snoc.IH have IH: "string_of_nat (nat_of_digits xs) = xs" by simp
    have "nat_of_digits xs \<noteq> 0"
    proof
      assume "nat_of_digits xs = 0"
      with IH have "xs = ''0''" by (simp add: string_of_nat.simps digit_char_def)
      with hd show False by simp
    qed
    then have "\<not> 10 * nat_of_digits xs + d < 10" by simp
    then have "string_of_nat (10 * nat_of_digits xs + d)
        = string_of_nat ((10 * nat_of_digits xs + d) div 10)
          @ [digit_char ((10 * nat_of_digits xs + d) mod 10)]"
      by (subst string_of_nat.simps) simp
    with d IH show ?thesis by (simp add: nat_of_digits_snoc flip: d_def)
  qed
qed

lemma array_index_canonical:
  assumes "is_array_index a"
  shows "string_of_nat (nat_of_digits a) = a"
proof -
  from assms have "a \<noteq> []" and "list_all is_digit a" and "a = ''0'' \<or> hd a \<noteq> CHR ''0''"
    unfolding is_array_index_def by blast+
  then show ?thesis by (rule string_of_nat_digits)
qed

lemma array_index_inj:
  assumes "is_array_index a" and "is_array_index b" and "nat_of_digits a = nat_of_digits b"
  shows "a = b"
proof -
  have "a = string_of_nat (nat_of_digits a)"
    using array_index_canonical [OF assms(1)] by (rule sym)
  also have "\<dots> = string_of_nat (nat_of_digits b)"
    by (simp only: assms(3))
  also have "\<dots> = b"
    by (rule array_index_canonical [OF assms(2)])
  finally show ?thesis .
qed


subsection \<open>The key order of the tally\<close>

lemma first_index_less: "first_index xs x < length xs \<longleftrightarrow> x \<in> set xs"
  unfolding first_index_def by (induction xs) auto

lemma first_index_append:
  "x \<in> set xs \<Longrightarrow> first_index (xs @ ys) x = first_index xs x"
  unfolding first_index_def by (induction xs) auto

lemma first_index_snoc_new:
  "x \<notin> set xs \<Longrightarrow> first_index (xs @ [x]) x = length xs"
  unfolding first_index_def by (induction xs) auto

lemma key_before_append:
  "a \<in> set seen \<Longrightarrow> b \<in> set seen \<Longrightarrow> key_before (seen @ ys) a b = key_before seen a b"
  by (simp add: key_before_def first_index_append)

lemma key_before_irrefl: "\<not> key_before seen a a"
  by (simp add: key_before_def)

lemma sorted_wrt_key_before_distinct:
  "sorted_wrt (key_before seen) ks \<Longrightarrow> distinct ks"
  by (induction ks) (auto simp: key_before_irrefl)

lemma key_before_new:
  assumes "k' \<in> set seen" and "k \<notin> set seen"
    and "\<not> (is_array_index k \<and> (\<not> is_array_index k' \<or> nat_of_digits k < nat_of_digits k'))"
  shows "key_before (seen @ [k]) k' k"
proof (cases "is_array_index k")
  case False
  from assms(1,2) have "first_index (seen @ [k]) k' < first_index (seen @ [k]) k"
    by (simp add: first_index_append first_index_snoc_new first_index_less)
  with False show ?thesis by (simp add: key_before_def)
next
  case True
  with assms(3) have k': "is_array_index k'" and le: "nat_of_digits k' \<le> nat_of_digits k"
    by auto
  from assms(1,2) have "k \<noteq> k'" by auto
  with True k' have "nat_of_digits k \<noteq> nat_of_digits k'"
    using array_index_inj by blast
  with le True k' show ?thesis by (simp add: key_before_def)
qed

lemma keys_obj_define: "set (map fst (obj_define k v ps)) = insert k (set (map fst ps))"
  by (induction k v ps rule: obj_define.induct) (simp_all add: insert_commute)

lemma set_obj_define: "set (obj_define k v ps) = insert (k, v) (set ps)"
  by (induction k v ps rule: obj_define.induct) (simp_all add: insert_commute)

lemma sorted_obj_define:
  assumes "sorted_wrt (key_before (seen @ [k])) (map fst ps)"
    and "set (map fst ps) \<subseteq> set seen" and "k \<notin> set seen"
  shows "sorted_wrt (key_before (seen @ [k])) (map fst (obj_define k v ps))"
  using assms
proof (induction ps)
  case Nil
  then show ?case by simp
next
  case (Cons p ps)
  obtain k' v' where p: "p = (k', v')" by (cases p)
  show ?case
  proof (cases "is_array_index k \<and> (\<not> is_array_index k' \<or> nat_of_digits k < nat_of_digits k')")
    case True
    have "key_before (seen @ [k]) k z" if "z = k' \<or> z \<in> set (map fst ps)" for z
    proof (cases "z = k'")
      case True
      with \<open>is_array_index k \<and> _\<close> show ?thesis by (auto simp: key_before_def)
    next
      case False
      with that Cons.prems(1) p have "key_before (seen @ [k]) k' z" by auto
      with True show ?thesis by (auto simp: key_before_def split: if_splits)
    qed
    with True Cons.prems(1) p show ?thesis by auto
  next
    case False
    from Cons.prems p have "k' \<in> set seen" by simp
    with False Cons.prems(3) have "key_before (seen @ [k]) k' k"
      by (intro key_before_new)
    moreover from Cons have "sorted_wrt (key_before (seen @ [k])) (map fst (obj_define k v ps))"
      by simp
    ultimately show ?thesis using False Cons.prems(1) p
      by (auto simp: keys_obj_define simp del: set_map)
  qed
qed

lemma keys_obj_modify: "map fst (obj_modify k f ps) = map fst ps"
  by (induction ps) auto

lemma obj_modify_absent: "k \<notin> set (map fst ps) \<Longrightarrow> obj_modify k f ps = ps"
  by (induction ps) auto

lemma obj_modify_obj_define:
  "k \<notin> set (map fst ps) \<Longrightarrow> obj_modify k f (obj_define k v ps) = obj_define k (f v) ps"
  by (induction ps) auto

lemma obj_modify_Ball:
  assumes "\<forall>(k', r) \<in> set ps. P k' r" and "distinct (map fst ps)"
    and "\<And>r. P k r \<Longrightarrow> Q k (f r)" and "\<And>k' r. k' \<noteq> k \<Longrightarrow> P k' r \<Longrightarrow> Q k' r"
  shows "\<forall>(k', r) \<in> set (obj_modify k f ps). Q k' r"
  using assms(1,2)
proof (induction ps)
  case Nil
  then show ?case by simp
next
  case (Cons p ps)
  obtain k' v' where p: "p = (k', v')" by (cases p)
  show ?case
  proof (cases "k = k'")
    case True
    with Cons.prems p have "\<forall>(k'', r) \<in> set ps. k'' \<noteq> k \<and> P k'' r"
      by (auto simp: rev_image_eqI)
    with assms(4) have "\<forall>(k'', r) \<in> set ps. Q k'' r" by blast
    with True Cons.prems p assms(3) show ?thesis by auto
  next
    case False
    with Cons p assms(4) show ?thesis by auto
  qed
qed


subsection \<open>The fold keeps the tally in key order with the right counts\<close>

lemma tally_inv_keys_seen: "tally_inv seen acc \<Longrightarrow> set (map fst acc) \<subseteq> set seen"
  by (auto simp: tally_inv_def)

lemma sorted_keys_append:
  assumes "tally_inv seen acc"
  shows "sorted_wrt (key_before (seen @ ys)) (map fst acc)"
proof -
  from assms have "sorted_wrt (key_before seen) (map fst acc)" by (simp add: tally_inv_def)
  moreover have "key_before (seen @ ys) a b"
    if "a \<in> set (map fst acc)" and "b \<in> set (map fst acc)" and "key_before seen a b" for a b
    using that tally_inv_keys_seen [OF assms] by (simp add: key_before_append subset_iff)
  ultimately show ?thesis by (rule sorted_wrt_mono_rel [rotated])
qed

lemma tally_inv_step:
  assumes inv: "tally_inv seen acc"
  shows "tally_inv (seen @ [category_name c]) (count_category acc c)"
proof -
  let ?n = "category_name c"
  let ?inc = "\<lambda>r :: ranked. r\<lparr> count := count r + 1 \<rparr>"
  have keys: "set (map fst acc) = set seen - set object_prototype_keys"
    and vals: "\<forall>(k, r) \<in> set acc. category_name (category r) = k \<and> count r = count_list seen k"
    using inv by (simp_all add: tally_inv_def)
  have sorted: "sorted_wrt (key_before (seen @ [?n])) (map fst acc)"
    using inv by (rule sorted_keys_append)
  have distinct: "distinct (map fst acc)"
    using sorted by (rule sorted_wrt_key_before_distinct)
  have own: "map_of acc ?n \<noteq> None \<longleftrightarrow> ?n \<in> set (map fst acc)"
    by (simp add: map_of_eq_None_iff)
  consider (own) "?n \<in> set (map fst acc)"
    | (inherited) "?n \<notin> set (map fst acc)" "?n \<in> set object_prototype_keys"
    | (new) "?n \<notin> set (map fst acc)" "?n \<notin> set object_prototype_keys"
    by blast
  then show ?thesis
  proof cases
    case own
    then have eq: "count_category acc c = obj_modify ?n ?inc acc"
      by (simp add: count_category_def obj_truthy_def Let_def map_of_eq_None_iff)
    from own keys have seen: "?n \<in> set seen" by auto
    have "\<forall>(k, r) \<in> set (obj_modify ?n ?inc acc).
            category_name (category r) = k \<and> count r = count_list (seen @ [?n]) k"
      using vals distinct by (rule obj_modify_Ball) simp_all
    with sorted keys seen show ?thesis
      unfolding tally_inv_def eq keys_obj_modify by auto
  next
    case inherited
    then have eq: "count_category acc c = acc"
      by (simp add: count_category_def obj_truthy_def Let_def obj_modify_absent)
    from inherited keys have "\<forall>(k, r) \<in> set acc. k \<noteq> ?n" by force
    with vals have "\<forall>(k, r) \<in> set acc.
        category_name (category r) = k \<and> count r = count_list (seen @ [?n]) k"
      by auto
    with sorted keys inherited show ?thesis
      unfolding tally_inv_def eq by auto
  next
    case new
    with keys have fresh: "?n \<notin> set seen" by auto
    from new have eq: "count_category acc c = obj_define ?n \<lparr> count = 1, category = c \<rparr> acc"
      by (simp add: count_category_def obj_truthy_def Let_def map_of_eq_None_iff
          obj_modify_obj_define)
    from keys have "set (map fst acc) \<subseteq> set seen" by auto
    with sorted fresh
    have "sorted_wrt (key_before (seen @ [?n])) (map fst (obj_define ?n \<lparr> count = 1, category = c \<rparr> acc))"
      by (intro sorted_obj_define)
    moreover from new keys have "\<forall>(k, r) \<in> set acc. k \<noteq> ?n" by force
    with vals have "\<forall>(k, r) \<in> set acc.
        category_name (category r) = k \<and> count r = count_list (seen @ [?n]) k"
      by auto
    ultimately show ?thesis
      unfolding tally_inv_def eq keys_obj_define set_obj_define
      using keys new fresh by auto
  qed
qed

lemma tally_inv_foldl:
  "tally_inv seen acc \<Longrightarrow> tally_inv (seen @ map category_name cs) (foldl count_category acc cs)"
proof (induction cs arbitrary: seen acc)
  case Nil
  then show ?case by simp
next
  case (Cons c cs)
  from Cons.prems have "tally_inv (seen @ [category_name c]) (count_category acc c)"
    by (rule tally_inv_step)
  from Cons.IH [OF this] show ?case by simp
qed

lemma foldl_nested:
  "foldl (\<lambda>acc t. foldl f acc (g t)) a ts = foldl f a (concat (map g ts))"
  by (induction ts arbitrary: a) simp_all

lemma tally_inv_tally: "tally_inv (encountered tools) (tally tools)"
proof -
  have "tally_inv [] []" by (simp add: tally_inv_def)
  from tally_inv_foldl [OF this, of "concat (map tool_categories tools)"]
  show ?thesis by (simp add: tally_def encountered_def foldl_nested map_concat comp_def)
qed


subsection \<open>The sort is stable\<close>

lemma set_insert_by: "set (insert_by cmp x ys) = insert x (set ys)"
  by (induction ys) auto

lemma set_sort_by: "set (sort_by cmp xs) = set xs"
  unfolding sort_by_def by (induction xs) (simp_all add: set_insert_by)

lemma length_insert_by: "length (insert_by cmp x ys) = Suc (length ys)"
  by (induction ys) auto

lemma length_sort_by: "length (sort_by cmp xs) = length xs"
  unfolding sort_by_def by (induction xs) (simp_all add: length_insert_by)

lemma sorted_insert_by:
  assumes "sorted_wrt (ranked_before tie) ys"
    and "\<forall>y \<in> set ys. tie (category_name (category x)) (category_name (category y))"
  shows "sorted_wrt (ranked_before tie) (insert_by (\<lambda>a b. int (count b) - int (count a)) x ys)"
  using assms
proof (induction ys)
  case Nil
  then show ?case by simp
next
  case (Cons y ys)
  show ?case
  proof (cases "count y \<le> count x")
    case True
    have "ranked_before tie x z" if "z \<in> set (y # ys)" for z
    proof -
      from that Cons.prems(1) have "count z \<le> count y"
        by (auto simp: ranked_before_def)
      with True that Cons.prems(2) show ?thesis
        by (auto simp: ranked_before_def)
    qed
    with True Cons.prems(1) show ?thesis by simp
  next
    case False
    then have "ranked_before tie y x" by (simp add: ranked_before_def)
    with False Cons show ?thesis by (auto simp: set_insert_by)
  qed
qed

lemma sorted_sort_by:
  assumes "sorted_wrt (\<lambda>a b. tie (category_name (category a)) (category_name (category b))) xs"
  shows "sorted_wrt (ranked_before tie) (sort_by (\<lambda>a b. int (count b) - int (count a)) xs)"
  using assms unfolding sort_by_def
proof (induction xs)
  case Nil
  then show ?case by simp
next
  case (Cons x xs)
  then have "sorted_wrt (ranked_before tie) (foldr (insert_by (\<lambda>a b. int (count b) - int (count a))) xs [])"
    by simp
  moreover from Cons.prems
  have "\<forall>y \<in> set (foldr (insert_by (\<lambda>a b. int (count b) - int (count a))) xs []).
          tie (category_name (category x)) (category_name (category y))"
    using set_sort_by [of "\<lambda>a b. int (count b) - int (count a)" xs]
    by (simp add: sort_by_def)
  ultimately show ?case by (simp add: sorted_insert_by)
qed

subsection \<open>The ranking\<close>

lemma tally_names: "tally_inv seen acc \<Longrightarrow> map (\<lambda>r. category_name (category r)) (map snd acc) = map fst acc"
  by (auto simp: tally_inv_def)

lemma categories_sorted:
  "sorted_wrt (ranked_before (key_before (encountered tools))) (categories tools)"
proof -
  let ?acc = "tally tools"
  have inv: "tally_inv (encountered tools) ?acc" by (rule tally_inv_tally)
  then have "sorted_wrt (key_before (encountered tools)) (map fst ?acc)"
    by (simp add: tally_inv_def)
  then have "sorted_wrt (key_before (encountered tools))
      (map (\<lambda>r. category_name (category r)) (map snd ?acc))"
    by (simp only: tally_names [OF inv])
  then have "sorted_wrt (\<lambda>a b. key_before (encountered tools)
      (category_name (category a)) (category_name (category b))) (Object_values ?acc)"
    by (simp add: sorted_wrt_map Object_values_def)
  then show ?thesis unfolding categories_def by (rule sorted_sort_by)
qed

lemma categories_names:
  "set (map (\<lambda>r. category_name (category r)) (categories tools))
     = set (encountered tools) - set object_prototype_keys"
proof -
  have inv: "tally_inv (encountered tools) (tally tools)" by (rule tally_inv_tally)
  have "set (map (\<lambda>r. category_name (category r)) (categories tools))
      = set (map (\<lambda>r. category_name (category r)) (map snd (tally tools)))"
    by (simp add: categories_def set_sort_by Object_values_def image_image)
  also have "\<dots> = set (map fst (tally tools))"
    by (simp only: tally_names [OF inv])
  finally show ?thesis using inv by (simp add: tally_inv_def)
qed

lemma categories_counts:
  assumes "r \<in> set (categories tools)"
  shows "count r = count_list (encountered tools) (category_name (category r))"
proof -
  have inv: "tally_inv (encountered tools) (tally tools)" by (rule tally_inv_tally)
  from assms have "r \<in> snd ` set (tally tools)"
    by (simp add: categories_def set_sort_by Object_values_def)
  with inv show ?thesis by (auto simp: tally_inv_def)
qed

lemma ranked_before_encounter:
  assumes "\<not> is_array_index (category_name (category a))"
    and "\<not> is_array_index (category_name (category b))"
    and "ranked_before (key_before seen) a b"
  shows "ranked_before (encounter_before seen) a b"
  using assms by (auto simp: ranked_before_def key_before_def encounter_before_def)


text \<open>
  The count of a category is the number of category entries with its name; when no tool
  lists a name twice, this is the number of tools with that category.
\<close>

lemma count_list_distinct:
  "distinct xs \<Longrightarrow> count_list xs x = (if x \<in> set xs then 1 else 0)"
  by (induction xs) auto

lemma count_list_concat:
  "count_list (concat xss) x = sum_list (map (\<lambda>xs. count_list xs x) xss)"
  by (induction xss) simp_all

lemma sum_list_indicator:
  "sum_list (map (\<lambda>x. if P x then 1 else 0) xs) = length (filter P xs)"
  by (induction xs) simp_all

lemma count_is_number_of_tools:
  assumes "\<forall>t \<in> set tools. distinct (map category_name (tool_categories t))"
  shows "count_list (encountered tools) n
       = length (filter (\<lambda>t. n \<in> set (map category_name (tool_categories t))) tools)"
  using assms by (induction tools) (simp_all add: encountered_def count_list_distinct)

text \<open>
  C2 (as amended): for every tool list the ranking is in order of non-increasing count,
  the count of a category being the number of category entries of that name in the
  list. Categories with equal counts appear in the key order of the tally object: names
  that are array indices first, by ascending number, then the other names in the order
  in which they were first encountered. When no category name is an array index, ties
  are therefore in encounter order.
\<close>

theorem category_ranking_order:
  "sorted_wrt (ranked_before (key_before (encountered tools))) (categories tools)
 \<and> ((\<forall>n \<in> set (encountered tools). \<not> is_array_index n) \<longrightarrow>
      sorted_wrt (ranked_before (encounter_before (encountered tools))) (categories tools))
 \<and> (\<forall>r \<in> set (categories tools).
      count r = count_list (encountered tools) (category_name (category r)))"
proof (intro conjI impI ballI)
  show sorted: "sorted_wrt (ranked_before (key_before (encountered tools))) (categories tools)"
    by (rule categories_sorted)
  show "count r = count_list (encountered tools) (category_name (category r))"
    if "r \<in> set (categories tools)" for r
    using that by (rule categories_counts)
  assume plain: "\<forall>n \<in> set (encountered tools). \<not> is_array_index n"
  have "\<not> is_array_index (category_name (category r))" if "r \<in> set (categories tools)" for r
  proof -
    from that have "category_name (category r)
        \<in> set (map (\<lambda>r. category_name (category r)) (categories tools))"
      by simp
    with plain show ?thesis unfolding categories_names by blast
  qed
  note plain_names = this
  from sorted show "sorted_wrt (ranked_before (encounter_before (encountered tools))) (categories tools)"
  proof (rule sorted_wrt_mono_rel [rotated])
    fix a b
    assume "a \<in> set (categories tools)" and "b \<in> set (categories tools)"
      and "ranked_before (key_before (encountered tools)) a b"
    then show "ranked_before (encounter_before (encountered tools)) a b"
      by (intro ranked_before_encounter plain_names)
  qed
qed

text \<open>The two example lists, evaluated.\<close>

lemma tools_by_year_ranking:
  "map (\<lambda>r. (category_name (category r), count r)) (categories tools_by_year)
     = [(''2023'', 1), (''2024'', 1)]"
  by (simp add: categories_def tally_def tools_by_year_def categorised_tool_def
      named_category_def count_category_def obj_truthy_def object_prototype_keys_def
      is_array_index_def is_digit_def nat_of_digits_def sort_by_def Object_values_def Let_def)

lemma tools_by_topic_ranking:
  "map (\<lambda>r. (category_name (category r), count r)) (categories tools_by_topic)
     = [(''Privacy'', 2), (''Analytics'', 1), (''Email'', 1)]"
  by (simp add: categories_def tally_def tools_by_topic_def categorised_tool_def
      named_category_def count_category_def obj_truthy_def object_prototype_keys_def
      is_array_index_def is_digit_def nat_of_digits_def sort_by_def Object_values_def Let_def)


theorem category_ranking_order_witness:
  "sorted_wrt (ranked_before (encounter_before (encountered tools_by_topic)))
     (categories tools_by_topic)
 \<and> map (\<lambda>r. (category_name (category r), count r)) (categories tools_by_topic)
     = [(''Privacy'', 2), (''Analytics'', 1), (''Email'', 1)]"
proof -
  have "\<forall>n \<in> set (encountered tools_by_topic). \<not> is_array_index n"
    by (simp add: encountered_def tools_by_topic_def categorised_tool_def named_category_def
        is_array_index_def is_digit_def)
  with category_ranking_order [of tools_by_topic] tools_by_topic_ranking
  show ?thesis by blast
qed

text \<open>
  C2 (as stated) fails when names are array indices: the tools meet the category
  \<open>2024\<close> before \<open>2023\<close>, both are counted once, and the ranking lists \<open>2023\<close> first.
\<close>

theorem category_ranking_ties_counterexample:
  "encountered tools_by_year = [''2024'', ''2023'']
 \<and> map (\<lambda>r. (category_name (category r), count r)) (categories tools_by_year)
     = [(''2023'', 1), (''2024'', 1)]
 \<and> \<not> sorted_wrt (ranked_before (encounter_before (encountered tools_by_year)))
       (categories tools_by_year)"
proof -
  have enc: "encountered tools_by_year = [''2024'', ''2023'']"
    by (simp add: encountered_def tools_by_year_def categorised_tool_def named_category_def)
  have cats: "categories tools_by_year
      = [\<lparr> count = 1, category = named_category ''2023'' \<rparr>,
         \<lparr> count = 1, category = named_category ''2024'' \<rparr>]"
    by (simp add: categories_def tally_def tools_by_year_def categorised_tool_def
      named_category_def count_category_def obj_truthy_def object_prototype_keys_def
      is_array_index_def is_digit_def nat_of_digits_def sort_by_def Object_values_def Let_def)
  have "\<not> sorted_wrt (ranked_before (encounter_before (encountered tools_by_year)))
       (categories tools_by_year)"
    unfolding enc cats
    by (simp add: ranked_before_def encounter_before_def first_index_def named_category_def)
  with enc tools_by_year_ranking show ?thesis by simp
qed

section \<open>Properties of the search box\<close>

subsection \<open>Traces\<close>

lemma text_after_append: "text_after q (xs @ ys) = text_after (text_after q xs) ys"
  by (induction q xs rule: text_after.induct) simp_all

lemma submissions_append: "submissions (xs @ ys) = submissions xs @ submissions ys"
  by (induction xs rule: submissions.induct) simp_all

lemma quiet_snoc_Changed:
  assumes "quiet q tr"
  shows "quiet q (tr @ [Changed t v])"
  unfolding quiet_def
proof (intro allI impI)
  fix pre t1 v1 post
  assume eq: "tr @ [Changed t v] = pre @ Refined t1 v1 # post"
  show "(\<forall>t' v'. Changed t' v' \<in> set pre \<longrightarrow> t' + 250 \<le> t1) \<and> v1 = text_after q pre"
  proof (cases post rule: rev_cases)
    case Nil
    with eq show ?thesis by simp
  next
    case (snoc ps y)
    with eq have "tr @ [Changed t v] = (pre @ Refined t1 v1 # ps) @ [y]" by simp
    then have "tr = pre @ Refined t1 v1 # ps" by (simp only: append1_eq_conv)
    with assms show ?thesis unfolding quiet_def by blast
  qed
qed

lemma quiet_snoc_Refined:
  assumes "quiet q tr" and "\<forall>t' v'. Changed t' v' \<in> set tr \<longrightarrow> t' + 250 \<le> t"
    and "v = text_after q tr"
  shows "quiet q (tr @ [Refined t v])"
  unfolding quiet_def
proof (intro allI impI)
  fix pre t1 v1 post
  assume eq: "tr @ [Refined t v] = pre @ Refined t1 v1 # post"
  show "(\<forall>t' v'. Changed t' v' \<in> set pre \<longrightarrow> t' + 250 \<le> t1) \<and> v1 = text_after q pre"
  proof (cases post rule: rev_cases)
    case Nil
    with eq have "tr = pre" and "t1 = t" and "v1 = v" by simp_all
    with assms show ?thesis by simp
  next
    case (snoc ps y)
    with eq have "tr @ [Refined t v] = (pre @ Refined t1 v1 # ps) @ [y]" by simp
    then have "tr = pre @ Refined t1 v1 # ps" by (simp only: append1_eq_conv)
    with assms(1) show ?thesis unfolding quiet_def by blast
  qed
qed

subsection \<open>Every step keeps the invariant\<close>

lemma box_inv_mount: "box_inv q (mount q)"
  by (simp add: box_inv_def mount_def refine_effect_def useDebounce_restart_def quiet_def
      Cons_eq_append_conv)

lemma box_inv_setSearchQuery:
  assumes "box_inv q s"
  shows "box_inv q (setSearchQuery v s)"
proof (cases "v = searchQuery s")
  case True
  with assms show ?thesis by (simp add: setSearchQuery_def)
next
  case False
  from assms have "quiet q (trace s @ [Changed (now s) v])"
    by (simp add: box_inv_def quiet_snoc_Changed)
  with assms False show ?thesis
    by (auto simp: box_inv_def setSearchQuery_def useDebounce_restart_def
        text_after_append submissions_append)
qed

lemma box_inv_wait:
  assumes "box_inv q s"
  shows "box_inv q (wait d s)"
proof (cases "timer s")
  case None
  with assms show ?thesis by (auto simp: box_inv_def wait_def)
next
  case (Some p)
  obtain dl v where p: "p = (dl, v)" by (cases p)
  show ?thesis
  proof (cases "dl \<le> now s + d")
    case False
    with assms Some p show ?thesis by (auto simp: box_inv_def wait_def)
  next
    case True
    from assms Some p have v: "v = searchQuery s"
      and ch: "\<forall>t' v'. Changed t' v' \<in> set (trace s) \<longrightarrow> t' + 250 \<le> dl"
      by (auto simp: box_inv_def)
    show ?thesis
    proof (cases "v = debouncedSearchTerm s")
      case True
      with assms Some p \<open>dl \<le> now s + d\<close> v show ?thesis
        by (auto simp: box_inv_def wait_def useDebounce_fire_def)
    next
      case False
      from assms v ch have "quiet q (trace s @ [Refined dl v])"
        by (intro quiet_snoc_Refined) (auto simp: box_inv_def)
      with assms Some p \<open>dl \<le> now s + d\<close> v False show ?thesis
        by (auto simp: box_inv_def wait_def useDebounce_fire_def refine_effect_def
            text_after_append submissions_append)
    qed
  qed
qed

lemma box_inv_step: "box_inv q s \<Longrightarrow> box_inv q (step s e)"
  by (cases e) (simp_all add: box_inv_setSearchQuery box_inv_wait)

lemma box_inv_run: "box_inv q s \<Longrightarrow> box_inv q (run s evs)"
  unfolding run_def by (induction evs arbitrary: s) (simp_all add: box_inv_step)

lemma box_inv_reachable: "box_inv q (run (mount q) evs)"
  by (simp add: box_inv_run box_inv_mount)

subsection \<open>The quiet period\<close>

text \<open>
  C1: whatever is typed, reset and waited after mounting, every call of \<open>refine\<close> comes
  at least 250 ms after each change of the input before it, and it passes the text of
  the input at that moment. So no text is submitted before 250 ms have passed without
  a further change. (The call at mounting passes the initial query; no change precedes
  it.)
\<close>

theorem refine_only_after_quiet_period:
  assumes "trace (run (mount q) evs) = pre @ Refined t v # post"
  shows "(\<forall>t' v'. Changed t' v' \<in> set pre \<longrightarrow> t' + 250 \<le> t) \<and> v = text_after q pre"
  using box_inv_reachable [of q evs] assms unfolding box_inv_def quiet_def by blast

theorem refine_only_after_quiet_period_witness:
  "trace (run (mount '''') [Input ''a'', Wait 100, Input ''ab'', Wait 250])
     = [Refined 0 '''', Changed 0 ''a'', Changed 100 ''ab''] @ Refined 350 ''ab'' # []
   \<and> (0::nat) + 250 \<le> 350 \<and> (100::nat) + 250 \<le> 350
   \<and> ''ab'' = text_after '''' [Refined 0 '''', Changed 0 ''a'', Changed 100 ''ab'']"
proof -
  have tr: "trace (run (mount '''') [Input ''a'', Wait 100, Input ''ab'', Wait 250])
     = [Refined 0 '''', Changed 0 ''a'', Changed 100 ''ab''] @ Refined 350 ''ab'' # []"
    by (simp add: run_def mount_def setSearchQuery_def wait_def useDebounce_restart_def
        useDebounce_fire_def refine_effect_def)
  from refine_only_after_quiet_period [OF tr] tr show ?thesis by simp
qed

subsection \<open>Rapid typing\<close>

lemma typing_retyping: "typing v rest = Input v # retyping rest"
  by (simp add: typing_def retyping_def)

lemma run_Cons: "run s (e # evs) = run (step s e) evs"
  by (simp add: run_def)

lemma run_append: "run s (xs @ ys) = run (run s xs) ys"
  by (simp add: run_def)

lemma retyping_state:
  assumes "timer s = Some (now s + 250, searchQuery s)" and "rapid (searchQuery s) rest"
  shows "now (run s (retyping rest)) = now s + sum_list (map fst rest)
       \<and> searchQuery (run s (retyping rest)) = last (searchQuery s # map snd rest)
       \<and> debouncedSearchTerm (run s (retyping rest)) = debouncedSearchTerm s
       \<and> timer (run s (retyping rest))
           = Some (now s + sum_list (map fst rest) + 250, last (searchQuery s # map snd rest))
       \<and> submissions (trace (run s (retyping rest))) = submissions (trace s)"
  using assms
proof (induction rest arbitrary: s)
  case Nil
  then show ?case by (simp add: retyping_def run_def)
next
  case (Cons p rest)
  obtain gap w where p: "p = (gap, w)" by (cases p)
  define s1 where "s1 = setSearchQuery w (wait gap s)"
  from Cons.prems p have gap: "gap < 250" and w: "w \<noteq> searchQuery s" and r: "rapid w rest"
    by simp_all
  have s1: "now s1 = now s + gap" "searchQuery s1 = w"
    "debouncedSearchTerm s1 = debouncedSearchTerm s"
    "timer s1 = Some (now s1 + 250, searchQuery s1)"
    "submissions (trace s1) = submissions (trace s)"
    using Cons.prems(1) gap w
    by (simp_all add: s1_def wait_def setSearchQuery_def useDebounce_restart_def
        submissions_append)
  have run: "run s (retyping (p # rest)) = run s1 (retyping rest)"
    by (simp add: retyping_def run_def p s1_def)
  from Cons.IH [of s1] s1 r show ?case
    unfolding run by (simp add: p add.assoc)
qed

text \<open>
  C7: starting in any state, let values be typed one after the other, each a change of
  the one before and less than 250 ms after it, and let time pass afterwards. Then at
  most one call of \<open>refine\<close> is added, with the final value, 250 ms after the last
  change; it is added when that much time passes and the final value is not the one
  submitted last. No intermediate value is submitted.
\<close>

theorem rapid_typing_submits_only_final:
  assumes "v \<noteq> searchQuery s" and "rapid v rest"
  shows "submissions (trace (run s (typing v rest @ [Wait d])))
       = submissions (trace s)
         @ (if 250 \<le> d \<and> last (v # map snd rest) \<noteq> debouncedSearchTerm s
            then [(now s + sum_list (map fst rest) + 250, last (v # map snd rest))]
            else [])"
proof -
  define s0 where "s0 = setSearchQuery v s"
  have s0: "now s0 = now s" "searchQuery s0 = v"
    "debouncedSearchTerm s0 = debouncedSearchTerm s"
    "timer s0 = Some (now s0 + 250, searchQuery s0)"
    "submissions (trace s0) = submissions (trace s)"
    using assms(1)
    by (simp_all add: s0_def setSearchQuery_def useDebounce_restart_def submissions_append)
  define s1 where "s1 = run s0 (retyping rest)"
  from retyping_state [of s0 rest] s0 assms(2)
  have s1: "now s1 = now s + sum_list (map fst rest)"
    "debouncedSearchTerm s1 = debouncedSearchTerm s"
    "timer s1 = Some (now s + sum_list (map fst rest) + 250, last (v # map snd rest))"
    "submissions (trace s1) = submissions (trace s)"
    by (simp_all add: s1_def)
  have "run s (typing v rest @ [Wait d]) = wait d s1"
    by (simp add: typing_retyping run_append run_Cons s0_def s1_def) (simp add: run_def)
  then show ?thesis using s1
    by (simp add: wait_def useDebounce_fire_def refine_effect_def submissions_append)
qed

theorem rapid_typing_submits_only_final_witness:
  "submissions (trace (run (mount '''') (typing ''a'' [(100, ''ab''), (100, ''abc'')] @ [Wait 300])))
     = [(0, ''''), (450, ''abc'')]"
  using rapid_typing_submits_only_final [of "''a''" "mount ''''" "[(100, ''ab''), (100, ''abc'')]" 300]
  by (simp add: mount_def refine_effect_def useDebounce_restart_def)

subsection \<open>Reset\<close>

text \<open>
  C5 (as stated) fails: the text \<open>a\<close> is typed and the form is reset 100 ms later. The
  text is cleared, but the debounced value never left the empty string, so the effect
  does not run again: \<open>refine\<close> has been called at mounting only, and after another
  second no timeout is pending.
\<close>

theorem reset_without_submission_counterexample:
  "searchQuery (run (mount '''') [Input ''a'', Wait 100, Reset]) = ''''
 \<and> submissions (trace (run (mount '''') [Input ''a'', Wait 100, Reset])) = [(0, '''')]
 \<and> submissions (trace (run (mount '''') [Input ''a'', Wait 100, Reset, Wait 1000])) = [(0, '''')]
 \<and> timer (run (mount '''') [Input ''a'', Wait 100, Reset, Wait 1000]) = None"
  by (simp add: run_def mount_def setSearchQuery_def wait_def useDebounce_restart_def
      useDebounce_fire_def refine_effect_def)

text \<open>
  C5 (as amended): in every state the component reaches, a reset sets the text to the
  empty string; when 250 ms or more pass after it without input, the empty string is
  submitted if the query submitted last is not the empty string, and nothing is
  submitted if it is.
\<close>

theorem reset_clears_and_submits_if_changed:
  fixes q evs d
  defines "s \<equiv> run (mount q) evs"
  assumes d: "250 \<le> d"
  shows "searchQuery (step s Reset) = ''''
       \<and> map snd (submissions (trace (run s [Reset, Wait d])))
         = map snd (submissions (trace s))
           @ (if snd (last (submissions (trace s))) = '''' then [] else [''''])"
proof -
  have inv: "box_inv q s" unfolding s_def by (rule box_inv_reachable)
  have clear: "searchQuery (step s Reset) = ''''"
    by (simp add: setSearchQuery_def useDebounce_restart_def)
  have last: "snd (last (submissions (trace s))) = debouncedSearchTerm s"
    using inv by (simp add: box_inv_def)
  have run: "run s [Reset, Wait d] = wait d (setSearchQuery '''' s)"
    by (simp add: run_def)
  have "map snd (submissions (trace (wait d (setSearchQuery '''' s))))
         = map snd (submissions (trace s))
           @ (if debouncedSearchTerm s = '''' then [] else [''''])"
  proof (cases "searchQuery s = ''''")
    case False
    with d show ?thesis
      by (simp add: setSearchQuery_def useDebounce_restart_def wait_def useDebounce_fire_def
          refine_effect_def submissions_append)
  next
    case True
    then have same: "setSearchQuery '''' s = s" by (simp add: setSearchQuery_def)
    show ?thesis
    proof (cases "timer s")
      case None
      with inv True have "debouncedSearchTerm s = ''''" by (auto simp: box_inv_def)
      with None show ?thesis by (simp add: same wait_def)
    next
      case (Some p)
      obtain dl v where p: "p = (dl, v)" by (cases p)
      from inv Some p True have "v = ''''" and "dl \<le> now s + 250"
        by (auto simp: box_inv_def)
      with d Some p show ?thesis
        by (auto simp: same wait_def useDebounce_fire_def refine_effect_def submissions_append)
    qed
  qed
  with clear last run show ?thesis by simp
qed

theorem reset_clears_and_submits_if_changed_witness:
  "searchQuery (step (run (mount '''') [Input ''a'', Wait 300]) Reset) = ''''
 \<and> map snd (submissions (trace (run (run (mount '''') [Input ''a'', Wait 300]) [Reset, Wait 250])))
     = ['''', ''a'', '''']"
proof -
  have "map snd (submissions (trace (run (mount '''') [Input ''a'', Wait 300]))) = ['''', ''a'']"
    and "snd (last (submissions (trace (run (mount '''') [Input ''a'', Wait 300])))) = ''a''"
    by (simp_all add: run_def mount_def setSearchQuery_def wait_def useDebounce_restart_def
        useDebounce_fire_def refine_effect_def)
  with reset_clears_and_submits_if_changed [of 250 "''''" "[Input ''a'', Wait 300]"]
  show ?thesis by simp
qed

end
